theory Spec2Isabelle
  imports Main "HOL-Library.Word" "HOL-Library.Signed_Division"
begin

section \<open>The integer math utilities of \<^verbatim>\<open>math_utils.cpp\<close>\<close>

text \<open>
  The C++ type \<^verbatim>\<open>int\<close> is a 32-bit two's complement integer and \<^verbatim>\<open>long long\<close> a
  64-bit one. The language leaves signed arithmetic that leaves the range undefined; for
  \<open>+\<close>, \<open>-\<close> and \<open>*\<close> the model gives it the result of the compiled code, which
  wraps around, and this is the reading of the specification when it speaks of results
  that silently wrap: on words these are arithmetic modulo \<open>2 ^ 32\<close> or \<open>2 ^ 64\<close>.
  Comparisons are the signed ones (\<open>\<le>s\<close>, \<open><s\<close>); \<^verbatim>\<open>/\<close> and \<^verbatim>\<open>%\<close> are the truncating
  quotient and remainder of the signed values. A division has no wrapped result: where
  the quotient is not an \<^verbatim>\<open>int\<close> the operation is undefined, the processor's division
  traps and the call returns nothing.
\<close>

type_synonym cint = "32 word"
type_synonym clonglong = "64 word"

text \<open>\<^verbatim>\<open>std::invalid_argument\<close>, the only exception the module throws.\<close>

datatype error = InvalidArgument

definition INT_MAX :: cint where
  "INT_MAX = 0x7FFFFFFF"

definition INT_MIN :: cint where
  "INT_MIN = 0x80000000"

text \<open>
  The operator \<^verbatim>\<open>/\<close> on \<^verbatim>\<open>int\<close>: the quotient of the signed values truncated towards
  zero (\<open>sdiv\<close> on the mathematical integers). It has no value for a divisor 0, nor for
  \<^verbatim>\<open>INT_MIN / -1\<close>, whose quotient \<open>2 ^ 31\<close> is not an \<^verbatim>\<open>int\<close>: \<open>None\<close> is an operation
  that is undefined, and stops the program where the processor traps.
\<close>

definition int_div :: "cint \<Rightarrow> cint \<Rightarrow> cint option" where
  "int_div a b =
     (if b = 0 \<or> (a = INT_MIN \<and> b = - 1) then None
      else Some (word_of_int (sint a sdiv sint b)))"

text \<open>
  The operator \<^verbatim>\<open>%\<close> on \<^verbatim>\<open>int\<close>, with the sign of the dividend (\<open>smod\<close> on the
  mathematical integers). The program takes remainders of numbers from 3 on only, by 2
  and by odd candidates from 3 on: never by 0 or \<open>-1\<close>.
\<close>

definition int_rem :: "cint \<Rightarrow> cint \<Rightarrow> cint" where
  "int_rem a b = word_of_int (sint a smod sint b)"

definition Add :: "cint \<Rightarrow> cint \<Rightarrow> cint" where
  "Add a b = a + b"

definition Subtract :: "cint \<Rightarrow> cint \<Rightarrow> cint" where
  "Subtract a b = a - b"

definition Multiply :: "cint \<Rightarrow> cint \<Rightarrow> cint" where
  "Multiply a b = a * b"

text \<open>
  \<open>Divide\<close> throws for a divisor 0 and returns \<^verbatim>\<open>a / b\<close> otherwise; \<open>None\<close> is a call
  that returns nothing.
\<close>

definition Divide :: "cint \<Rightarrow> cint \<Rightarrow> (error + cint) option" where
  "Divide a b =
     (if b = 0 then Some (Inl InvalidArgument) else map_option Inr (int_div a b))"

text \<open>
  The loop \<^verbatim>\<open>for (int i = 3; i * i <= n; i += 2)\<close> of \<^verbatim>\<open>IsPrime\<close>. Nothing in its
  text bounds the number of rounds, so it is a partial function: \<open>None\<close> is a run that
  never returns.
\<close>

partial_function (option) IsPrime_loop :: "cint \<Rightarrow> cint \<Rightarrow> bool option" where
  "IsPrime_loop n i =
     (if i * i \<le>s n
      then (if int_rem n i = 0 then Some False else IsPrime_loop n (i + 2))
      else Some True)"

definition IsPrime :: "cint \<Rightarrow> bool option" where
  "IsPrime n =
     (if n <s 2 then Some False
      else if n = 2 then Some True
      else if int_rem n 2 = 0 then Some False
      else IsPrime_loop n 3)"

declare IsPrime_loop.simps [code]

text \<open>
  The loop \<^verbatim>\<open>for (int i = 2; i <= n; ++i) result *= i;\<close> of \<^verbatim>\<open>Factorial\<close>: the
  counter is an \<^verbatim>\<open>int\<close>, converted to \<^verbatim>\<open>long long\<close> (sign extended) for the product.
\<close>

partial_function (option) Factorial_loop :: "cint \<Rightarrow> cint \<Rightarrow> clonglong \<Rightarrow> clonglong option" where
  "Factorial_loop n i result =
     (if i \<le>s n then Factorial_loop n (i + 1) (result * scast i) else Some result)"

declare Factorial_loop.simps [code]

definition Factorial :: "cint \<Rightarrow> (error + clonglong) option" where
  "Factorial n =
     (if n <s 0 then Some (Inl InvalidArgument)
      else if n = 0 \<or> n = 1 then Some (Inr 1)
      else map_option Inr (Factorial_loop n 2 1))"

text \<open>
  What the header promises of \<^verbatim>\<open>IsPrime\<close> (\<^verbatim>\<open>true if n is prime, false otherwise\<close>): a
  prime is a number greater than 1 with no divisor but 1 and itself.
\<close>

definition is_prime :: "nat \<Rightarrow> bool" where
  "is_prime p = (1 < p \<and> (\<nexists>d. d dvd p \<and> d \<noteq> 1 \<and> d \<noteq> p))"

text \<open>
  Modular exponentiation by repeated squaring. It is no part of the program: it
  evaluates the powers of the primality certificate of \<open>2 ^ 31 - 1\<close> below.
\<close>

function powmod :: "nat \<Rightarrow> nat \<Rightarrow> nat \<Rightarrow> nat" where
  "powmod a e n =
     (if e = 0 then 1 mod n
      else if even e then (powmod a (e div 2) n)\<^sup>2 mod n
      else (powmod a (e div 2) n)\<^sup>2 mod n * a mod n)"
  by pat_completeness auto
termination
  by (relation "measure (\<lambda>(a, e, n). e)") auto

declare powmod.simps [simp del]

section \<open>Algebraic laws of addition and subtraction\<close>

text \<open>
  Claim C6: for all 32-bit integers \<open>a\<close> and \<open>b\<close>, subtracting \<open>b\<close> from the sum of
  \<open>a\<close> and \<open>b\<close> gives \<open>a\<close> back, also when the sum wraps around.
\<close>

theorem Subtract_Add_cancel: "Subtract (Add a b) b = a"
  by (simp add: Subtract_def Add_def)

text \<open>Claim C7: addition is commutative.\<close>

theorem Add_commute: "Add a b = Add b a"
  by (simp add: Add_def add.commute)

text \<open>
  Claim C8: subtraction is anti-commutative, \<open>Subtract a b\<close> being the (wrapping)
  negation of \<open>Subtract b a\<close>, at the ends of the range too.
\<close>

theorem Subtract_anticommute: "Subtract a b = - Subtract b a"
  by (simp add: Subtract_def)

section \<open>Words and the numbers they stand for\<close>

lemma sint_of_nat_32: "N < 2 ^ 31 \<Longrightarrow> sint (of_nat N :: cint) = int N"
  by (simp add: signed_of_nat signed_take_bit_int_eq_self)

lemma sint_of_nat_64: "N < 2 ^ 63 \<Longrightarrow> sint (of_nat N :: clonglong) = int N"
  by (simp add: signed_of_nat signed_take_bit_int_eq_self)

lemma of_nat_sint_32: "0 \<le>s (n :: cint) \<Longrightarrow> of_nat (nat (sint n)) = n"
  by (simp add: word_sle_eq)

lemma sint_bounds_32: "- (2 ^ 31) \<le> sint (n :: cint)" "sint (n :: cint) < 2 ^ 31"
  using sint_ge [of n] sint_lt [of n] by simp_all

lemma sint_bounds_64: "- (2 ^ 63) \<le> sint (r :: clonglong)" "sint (r :: clonglong) < 2 ^ 63"
  using sint_ge [of r] sint_lt [of r] by simp_all

lemma sle_of_nat_32:
  "I < 2 ^ 31 \<Longrightarrow> N < 2 ^ 31 \<Longrightarrow> (of_nat I \<le>s (of_nat N :: cint)) = (I \<le> N)"
  by (simp add: word_sle_eq sint_of_nat_32)

lemma scast_of_nat_32: "I < 2 ^ 31 \<Longrightarrow> (scast (of_nat I :: cint) :: clonglong) = of_nat I"
  by (simp add: signed_of_nat signed_take_bit_int_eq_self)

lemma sle_INT_MAX: "i \<le>s INT_MAX"
  using sint_bounds_32(2) [of i] by (simp add: word_sle_eq INT_MAX_def)

lemma sint_neq_INT_MAX: "n \<noteq> INT_MAX \<Longrightarrow> sint n \<noteq> 2 ^ 31 - 1"
  by (auto simp: INT_MAX_def dest!: arg_cong [where f = "word_of_int :: int \<Rightarrow> cint"])

section \<open>The factorial loop\<close>

text \<open>
  Below \<^verbatim>\<open>INT_MAX\<close> the counter reaches \<open>n + 1\<close> without wrapping and the loop leaves
  with the product of the counters it went through, modulo \<open>2 ^ 64\<close>.
\<close>

lemma Factorial_loop_below:
  "N < 2 ^ 31 - 1 \<Longrightarrow> I \<le> N + 1 \<Longrightarrow>
   Factorial_loop (of_nat N) (of_nat I) r = Some (r * of_nat (\<Prod>{I..N}))"
proof (induction "N + 1 - I" arbitrary: I r)
  case 0
  then have "I = N + 1" by simp
  moreover have "(of_nat I \<le>s (of_nat N :: cint)) = (I \<le> N)"
    by (rule sle_of_nat_32) (use 0 \<open>I = N + 1\<close> in simp_all)
  ultimately have "\<not> (of_nat I \<le>s (of_nat N :: cint))"
    by simp
  moreover have "\<Prod>{I..N} = 1"
    using \<open>I = N + 1\<close> by simp
  ultimately show ?case
    by (subst Factorial_loop.simps) simp
next
  case (Suc k)
  then have le: "I \<le> N" and k: "k = N + 1 - (I + 1)" and le': "I + 1 \<le> N + 1"
    by simp_all
  have "(of_nat I \<le>s (of_nat N :: cint)) = (I \<le> N)"
    by (rule sle_of_nat_32) (use Suc.prems le in simp_all)
  moreover have "(scast (of_nat I :: cint) :: clonglong) = of_nat I"
    by (rule scast_of_nat_32) (use Suc.prems le in simp)
  moreover have "(of_nat I :: cint) + 1 = of_nat (I + 1)"
    by simp
  ultimately have "Factorial_loop (of_nat N) (of_nat I) r =
    Factorial_loop (of_nat N) (of_nat (I + 1)) (r * of_nat I)"
    using le by (subst Factorial_loop.simps) (simp only: if_True)
  also have "\<dots> = Some (r * of_nat I * of_nat (\<Prod>{I + 1..N}))"
    by (rule Suc.hyps(1) [OF k Suc.prems(1) le'])
  also have "{I..N} = insert I {I + 1..N}"
    using le by auto
  then have "r * of_nat I * (of_nat (\<Prod>{I + 1..N}) :: clonglong) = r * of_nat (\<Prod>{I..N})"
    by (simp add: mult.assoc)
  finally show ?case .
qed

lemma fact_eq_prod_from_2: "2 \<le> N \<Longrightarrow> \<Prod>{2..N} = fact N"
proof -
  assume "2 \<le> N"
  then have "{1..N} = insert 1 {2..N}" by auto
  then show ?thesis by (simp add: fact_prod)
qed

text \<open>
  For every argument from 0 up to, but not including, \<^verbatim>\<open>INT_MAX\<close> the function returns
  the factorial modulo \<open>2 ^ 64\<close>.
\<close>

lemma Factorial_below_INT_MAX:
  assumes "0 \<le>s n" and "n \<noteq> INT_MAX"
  shows "Factorial n = Some (Inr (of_nat (fact (nat (sint n)))))"
proof -
  define N where "N = nat (sint n)"
  have n: "n = of_nat N"
    using assms(1) by (simp add: N_def of_nat_sint_32)
  have "sint n \<noteq> 2 ^ 31 - 1"
    using assms(2) by (rule sint_neq_INT_MAX)
  then have N: "N < 2 ^ 31 - 1"
    using assms(1) sint_bounds_32(2) [of n] by (simp add: N_def word_sle_eq)
  have neg: "\<not> n <s 0"
    using assms(1) by (simp add: word_sle_eq word_sless_alt)
  show ?thesis
  proof (cases "N < 2")
    case True
    then have "N = 0 \<or> N = 1" by auto
    then show ?thesis
      using neg by (auto simp: Factorial_def n)
  next
    case False
    then have "n \<noteq> 0" "n \<noteq> 1"
      using N_def by auto
    moreover have "Factorial_loop (of_nat N) (of_nat 2) 1 = Some (1 * of_nat (\<Prod>{2..N}))"
      by (rule Factorial_loop_below) (use N False in simp_all)
    ultimately show ?thesis
      using neg False by (simp add: Factorial_def fact_eq_prod_from_2 flip: n N_def)
  qed
qed

text \<open>
  At \<^verbatim>\<open>INT_MAX\<close> the test \<^verbatim>\<open>i <= n\<close> holds for every value of the counter, which wraps
  from \<^verbatim>\<open>INT_MAX\<close> to \<^verbatim>\<open>INT_MIN\<close> and goes on: the loop has no result.
\<close>

lemma Factorial_loop_INT_MAX_no_result:
  assumes "Factorial_loop n i r = Some y"
  shows "n \<noteq> INT_MAX"
proof (rule Factorial_loop.raw_induct [where P = "\<lambda>n i r y. n \<noteq> INT_MAX", OF _ assms])
  fix loop :: "cint \<Rightarrow> cint \<Rightarrow> clonglong \<Rightarrow> clonglong option" and n i r y
  assume IH: "\<And>n i r y. loop n i r = Some y \<Longrightarrow> n \<noteq> INT_MAX"
    and step: "(if i \<le>s n then loop n (i + 1) (r * scast i) else Some r) = Some y"
  show "n \<noteq> INT_MAX"
  proof
    assume n: "n = INT_MAX"
    with step have "loop INT_MAX (i + 1) (r * scast i) = Some y"
      by (simp add: sle_INT_MAX)
    then show False
      using IH by blast
  qed
qed

lemma Factorial_loop_INT_MAX: "Factorial_loop INT_MAX i r = None"
  using Factorial_loop_INT_MAX_no_result [of INT_MAX i r]
  by (cases "Factorial_loop INT_MAX i r") auto

lemma Factorial_INT_MAX: "Factorial INT_MAX = None"
  by (simp add: Factorial_def Factorial_loop_INT_MAX) (simp add: INT_MAX_def word_sless_alt)

lemma dvd_fact_66: "66 \<le> N \<Longrightarrow> (2::nat) ^ 64 dvd fact N"
proof -
  assume "66 \<le> N"
  then have "(fact 66 :: nat) dvd fact N" by (rule fact_dvd)
  moreover have "(2::nat) ^ 64 dvd fact 66" by (simp add: fact_numeral)
  ultimately show ?thesis by (rule dvd_trans [rotated])
qed

text \<open>From 66 on, and below \<^verbatim>\<open>INT_MAX\<close>, the wrapped product is 0.\<close>

lemma Factorial_from_66:
  assumes "66 \<le>s n" and "n \<noteq> INT_MAX"
  shows "Factorial n = Some (Inr 0)"
proof -
  have "0 \<le>s n" "66 \<le> nat (sint n)"
    using assms(1) by (simp_all add: word_sle_eq)
  then show ?thesis
    using Factorial_below_INT_MAX [of n] assms(2) dvd_fact_66 [of "nat (sint n)"]
    by (simp add: word_of_nat_eq_0_iff)
qed

section \<open>The factorial is exact up to 20\<close>

text \<open>
  Claim C9: for every \<open>n\<close> from 0 to 20, \<open>Factorial n\<close> returns the mathematical
  factorial of \<open>n\<close> itself (the signed value of the 64-bit result is \<open>n!\<close>, nothing has
  wrapped), and at 21 the result is not the factorial any more.
\<close>

theorem Factorial_exact_up_to_20:
  "(\<forall>n. 0 \<le>s n \<and> n \<le>s 20 \<longrightarrow>
      (\<exists>r. Factorial n = Some (Inr r) \<and> sint r = int (fact (nat (sint n))))) \<and>
   (\<exists>r. Factorial 21 = Some (Inr r) \<and> sint r \<noteq> int (fact 21))"
proof (intro conjI allI impI)
  fix n :: cint
  assume n: "0 \<le>s n \<and> n \<le>s 20"
  define N where "N = nat (sint n)"
  have "N \<le> 20"
    using n by (auto simp: N_def word_sle_eq)
  then have "(fact N :: nat) \<le> fact 20"
    by (rule fact_mono)
  also have "(fact 20 :: nat) < 2 ^ 63"
    by (simp add: fact_numeral)
  finally have "sint (of_nat (fact N) :: clonglong) = int (fact N)"
    by (rule sint_of_nat_64)
  moreover have "n \<noteq> INT_MAX"
    using n by (auto simp: INT_MAX_def)
  then have "Factorial n = Some (Inr (of_nat (fact N)))"
    unfolding N_def using n by (intro Factorial_below_INT_MAX) simp_all
  ultimately show "\<exists>r. Factorial n = Some (Inr r) \<and> sint r = int (fact (nat (sint n)))"
    by (simp add: N_def)
next
  have "Factorial 21 = Some (Inr (of_nat (fact (nat (sint (21 :: cint))))))"
    by (rule Factorial_below_INT_MAX) (simp_all add: INT_MAX_def word_sle_eq)
  moreover have "sint (of_nat (fact 21) :: clonglong) < 2 ^ 63"
    by (rule sint_bounds_64)
  moreover have "(2 :: int) ^ 63 \<le> int (fact 21)"
    by (simp add: fact_numeral)
  ultimately show "\<exists>r. Factorial 21 = Some (Inr r) \<and> sint r \<noteq> int (fact 21)"
    by simp
qed

theorem Factorial_exact_up_to_20_witness:
  "(0 :: cint) \<le>s 5 \<and> (5 :: cint) \<le>s 20 \<and> Factorial 5 = Some (Inr 120) \<and>
   sint (120 :: clonglong) = int (fact 5)"
proof -
  have h: "(0 :: cint) \<le>s 5 \<and> (5 :: cint) \<le>s 20"
    by (simp add: word_sle_eq)
  have run: "Factorial 5 = Some (Inr 120)"
    by (simp add: Factorial_def Factorial_loop.simps word_sle_eq word_sless_alt)
  from Factorial_exact_up_to_20 h run
  have "sint (120 :: clonglong) = int (fact (nat (sint (5 :: cint))))"
    by fastforce
  with h run show ?thesis
    by simp
qed

section \<open>Division\<close>

lemma sint_word_of_int_32:
  "- (2 ^ 31) \<le> k \<Longrightarrow> k < 2 ^ 31 \<Longrightarrow> sint (word_of_int k :: cint) = k"
  by (simp add: sint_sbintrunc' signed_take_bit_int_eq_self)

lemma sdiv_in_range:
  fixes A B :: int
  assumes A: "- (2 ^ 31) \<le> A" "A < 2 ^ 31" and B: "B \<noteq> 0"
    and no: "\<not> (A = - (2 ^ 31) \<and> B = - 1)"
  shows "- (2 ^ 31) \<le> A sdiv B \<and> A sdiv B < 2 ^ 31"
proof -
  have r: "- \<bar>A\<bar> \<le> A sdiv B" "A sdiv B \<le> \<bar>A\<bar>"
    using sdiv_int_range [of A B] by simp_all
  have "A sdiv B \<noteq> 2 ^ 31"
  proof
    assume eq: "A sdiv B = 2 ^ 31"
    with r A have "A = - (2 ^ 31)" by simp
    with eq have "A sdiv B = - A" "A \<noteq> 0" by simp_all
    then have "B = - 1" by simp
    with no \<open>A = - (2 ^ 31)\<close> show False by simp
  qed
  with r A show ?thesis by (simp add: abs_if split: if_splits)
qed

lemma smod_sign:
  fixes A B :: int
  shows "A smod B = 0 \<or> sgn (A smod B) = sgn A"
proof (cases "\<bar>A\<bar> mod \<bar>B\<bar> = 0")
  case True
  then show ?thesis by (simp add: smod_int_alt_def)
next
  case False
  moreover have "0 \<le> \<bar>A\<bar> mod \<bar>B\<bar>"
    by (cases "B = 0") simp_all
  ultimately have "sgn (\<bar>A\<bar> mod \<bar>B\<bar>) = 1" by simp
  then show ?thesis by (simp add: smod_int_alt_def sgn_mult)
qed

lemma Divide_no_overflow:
  assumes b: "b \<noteq> 0" and no: "\<not> (a = INT_MIN \<and> b = - 1)"
  defines "q \<equiv> word_of_int (sint a sdiv sint b)"
  shows "int_div a b = Some q"
    and "sint q = sint a sdiv sint b"
    and "sint (a - q * b) = sint a smod sint b"
proof -
  show "int_div a b = Some q"
    using b no by (simp add: int_div_def q_def)
  have B: "sint b \<noteq> 0"
    using b by (simp add: signed_eq_0_iff)
  have "\<not> (sint a = - (2 ^ 31) \<and> sint b = - 1)"
  proof
    assume "sint a = - (2 ^ 31) \<and> sint b = - 1"
    then have "word_of_int (sint a) = (word_of_int (- (2 ^ 31)) :: cint)"
      and "word_of_int (sint b) = (word_of_int (- 1) :: cint)" by simp_all
    then have "a = INT_MIN \<and> b = - 1" by (simp add: INT_MIN_def)
    with no show False ..
  qed
  with sdiv_in_range [OF sint_bounds_32 [of a] B]
  have rng: "- (2 ^ 31) \<le> sint a sdiv sint b \<and> sint a sdiv sint b < 2 ^ 31" .
  then show "sint q = sint a sdiv sint b"
    by (simp add: q_def sint_word_of_int_32)
  have "a - q * b = word_of_int (sint a - (sint a sdiv sint b) * sint b)"
    by (simp add: q_def)
  also have "sint a - (sint a sdiv sint b) * sint b = sint a smod sint b"
    by (rule minus_sdiv_mult_eq_smod)
  finally have "a - q * b = word_of_int (sint a smod sint b)" .
  moreover have "- (2 ^ 31) \<le> sint a smod sint b" "sint a smod sint b < 2 ^ 31"
    using smod_int_range [OF B, of "sint a"] sint_bounds_32 [of b] by auto
  ultimately show "sint (a - q * b) = sint a smod sint b"
    by (simp add: sint_word_of_int_32)
qed

lemma Divide_raises_iff: "(Divide a b = Some (Inl InvalidArgument)) = (b = 0)"
  by (auto simp: Divide_def)

text \<open>
  Away from \<^verbatim>\<open>INT_MIN\<close> divided by \<open>-1\<close>, and for \<open>b \<noteq> 0\<close>, \<open>Divide a b\<close> returns the
  quotient \<open>q\<close> of the two integers truncated towards zero: \<open>q * b + (a - q * b)\<close> is
  \<open>a\<close>, nothing wraps in the remainder \<open>a - q * b\<close>, which is smaller in absolute value
  than the divisor and is zero or has the sign of \<open>a\<close>.
\<close>

lemma Divide_truncates:
  assumes b: "b \<noteq> 0" and no: "\<not> (a = INT_MIN \<and> b = - 1)"
  shows "\<exists>q. Divide a b = Some (Inr q) \<and>
       sint q = sint a sdiv sint b \<and>
       q * b + (a - q * b) = a \<and>
       sint (a - q * b) = sint a - sint q * sint b \<and>
       \<bar>sint a - sint q * sint b\<bar> < \<bar>sint b\<bar> \<and>
       (a - q * b = 0 \<or> sgn (sint (a - q * b)) = sgn (sint a))"
proof -
  define q :: cint where "q = word_of_int (sint a sdiv sint b)"
  note q = Divide_no_overflow [OF b no, folded q_def]
  have B: "sint b \<noteq> 0"
    using b by (simp add: signed_eq_0_iff)
  have r: "sint a - sint a sdiv sint b * sint b = sint a smod sint b"
    by (rule minus_sdiv_mult_eq_smod)
  have "(a - q * b = 0) = (sint (a - q * b) = 0)"
    by (simp only: signed_eq_0_iff)
  then have "a - q * b = 0 \<or> sgn (sint (a - q * b)) = sgn (sint a)"
    using smod_sign [of "sint a" "sint b"] by (simp only: q(3))
  moreover have "\<bar>sint a smod sint b\<bar> < \<bar>sint b\<bar>"
    using smod_int_range [OF B, of "sint a"] by auto
  ultimately have "Divide a b = Some (Inr q) \<and>
       sint q = sint a sdiv sint b \<and>
       q * b + (a - q * b) = a \<and>
       sint (a - q * b) = sint a - sint q * sint b \<and>
       \<bar>sint a - sint q * sint b\<bar> < \<bar>sint b\<bar> \<and>
       (a - q * b = 0 \<or> sgn (sint (a - q * b)) = sgn (sint a))"
    using b by (simp add: Divide_def q r)
  then show ?thesis ..
qed

lemma Divide_minus_7_by_2:
  "Divide (- 7) 2 = Some (Inr (- 3)) \<and> sint (- 3 :: cint) = - 3 \<and>
   sint (- 7 - (- 3) * 2 :: cint) = - 1"
  using Divide_truncates [of 2 "- 7"] by (simp add: Divide_def int_div_def INT_MIN_def)

text \<open>
  Claim C3, at the argument where the code leaves it: \<open>-1\<close> is not 0, so \<open>Divide\<close>
  does not throw for \<^verbatim>\<open>INT_MIN\<close> and \<open>-1\<close>; the quotient of the two integers truncated
  towards zero is \<open>2 ^ 31\<close>, which is the value of no \<^verbatim>\<open>int\<close>, and the call returns
  nothing.
\<close>

theorem Divide_INT_MIN_by_minus_1:
  "(- 1 :: cint) \<noteq> 0 \<and> Divide INT_MIN (- 1) = None \<and>
   sint INT_MIN sdiv sint (- 1 :: cint) = 2147483648 \<and>
   (\<nexists>q :: cint. sint q = 2147483648)"
proof -
  have "sint q \<noteq> 2147483648" for q :: cint
    using sint_bounds_32(2) [of q] by simp
  then show ?thesis
    by (simp add: Divide_def int_div_def INT_MIN_def)
qed

section \<open>Prime numbers\<close>

lemma powmod_eq: "powmod a e n = a ^ e mod n"
proof (induction a e n rule: powmod.induct)
  case (1 a e n)
  show ?case
  proof (cases "e = 0")
    case True
    then show ?thesis by (subst powmod.simps) simp
  next
    case False
    define h where "h = e div 2"
    have IH: "powmod a h n = a ^ h mod n"
      using 1 False by (cases "even e") (simp_all add: h_def)
    have sq: "(powmod a h n)\<^sup>2 mod n = a ^ (2 * h) mod n"
      by (simp add: IH power2_eq_square mod_mult_eq mult_2 power_add)
    show ?thesis
    proof (cases "even e")
      case True
      then have "e = 2 * h" by (auto simp: h_def)
      then show ?thesis
        using False True sq by (subst powmod.simps) (simp add: h_def)
    next
      case odd: False
      then have e: "e = Suc (2 * h)" by (auto simp: h_def elim!: oddE)
      have "powmod a e n = (powmod a h n)\<^sup>2 mod n * a mod n"
        using False odd by (subst powmod.simps) (simp add: h_def)
      also have "\<dots> = a ^ (2 * h) mod n * a mod n"
        by (simp only: sq)
      also have "\<dots> = a ^ e mod n"
        by (simp add: e mod_mult_left_eq mod_mult_right_eq mult.commute)
      finally show ?thesis .
    qed
  qed
qed

text \<open>
  Lucas's criterion: if the powers of \<open>a\<close> modulo \<open>N\<close> come back to 1 at \<open>N - 1\<close> and
  not before, they run through \<open>N - 1\<close> different residues, all coprime to \<open>N\<close>, so
  \<open>N\<close> has no proper divisor.
\<close>

lemma power_mult_mod_one:
  fixes a :: nat
  assumes "1 < N" and "a ^ k mod N = 1"
  shows "a ^ (k * d) mod N = 1"
proof -
  have "a ^ (k * d) mod N = (a ^ k mod N) ^ d mod N"
    by (simp add: power_mult power_mod)
  with assms show ?thesis by simp
qed

lemma least_order_dvd:
  fixes a :: nat
  assumes N: "1 < N" and m: "a ^ m mod N = 1" and k: "a ^ k mod N = 1"
    and least: "\<And>j. 0 < j \<Longrightarrow> j < k \<Longrightarrow> a ^ j mod N \<noteq> 1" and pos: "0 < k"
  shows "k dvd m"
proof -
  have "a ^ m = a ^ (k * (m div k)) * a ^ (m mod k)"
    by (simp flip: power_add)
  then have "a ^ m mod N = (a ^ (k * (m div k)) mod N) * a ^ (m mod k) mod N"
    by (simp add: mod_mult_left_eq)
  also have "a ^ (k * (m div k)) mod N = 1"
    using N k by (rule power_mult_mod_one)
  finally have "a ^ (m mod k) mod N = 1"
    using m by simp
  moreover have "m mod k < k"
    using pos by simp
  ultimately have "\<not> 0 < m mod k"
    using least by blast
  then show ?thesis by auto
qed

lemma order_is_full:
  fixes a :: nat
  assumes N: "1 < N" and M: "a ^ M mod N = 1"
    and factors: "\<And>t. t dvd M \<Longrightarrow> 1 < t \<Longrightarrow> \<exists>q\<in>Q. q dvd t"
    and powers: "\<And>q. q \<in> Q \<Longrightarrow> a ^ (M div q) mod N \<noteq> 1"
    and k: "0 < k" "k < M"
  shows "a ^ k mod N \<noteq> 1"
proof
  assume one: "a ^ k mod N = 1"
  define P where "P j \<longleftrightarrow> 0 < j \<and> a ^ j mod N = 1" for j
  define r where "r = (LEAST j. P j)"
  have "P k" using k one by (simp add: P_def)
  then have "P r" and "r \<le> k"
    unfolding r_def by (rule LeastI, rule Least_le)
  have least: "a ^ j mod N \<noteq> 1" if "0 < j" "j < r" for j
    using not_less_Least [of j P] that by (auto simp: r_def P_def)
  have "r dvd M"
    using N M _ least by (rule least_order_dvd) (use \<open>P r\<close> in \<open>simp_all add: P_def\<close>)
  then obtain t where t: "M = r * t" ..
  have "t \<noteq> 0"
    using t k by (intro notI) simp
  have "t \<noteq> 1"
    using t k \<open>r \<le> k\<close> by (intro notI) simp
  with \<open>t \<noteq> 0\<close> have "1 < t" by simp
  moreover have "t dvd M" by (simp add: t)
  ultimately obtain q where q: "q \<in> Q" "q dvd t"
    using factors by blast
  then obtain s where s: "t = q * s" by (auto elim: dvdE)
  have "q \<noteq> 0" using s \<open>t \<noteq> 0\<close> by auto
  then have "M div q = r * s"
    by (simp add: t s)
  moreover have "a ^ (r * s) mod N = 1"
    using N by (rule power_mult_mod_one) (use \<open>P r\<close> in \<open>simp add: P_def\<close>)
  ultimately show False
    using powers [OF q(1)] by simp
qed

lemma lucas_is_prime:
  fixes a :: nat
  assumes N: "1 < N" and one: "a ^ (N - 1) mod N = 1"
    and order: "\<And>k. 0 < k \<Longrightarrow> k < N - 1 \<Longrightarrow> a ^ k mod N \<noteq> 1"
  shows "is_prime N"
proof -
  have "coprime a N"
  proof (rule coprimeI)
    fix d assume d: "d dvd a" "d dvd N"
    have "a dvd a ^ (N - 1)"
      using N by (intro dvd_power) simp
    with d(1) have "d dvd a ^ (N - 1)"
      by (rule dvd_trans)
    with d(2) have "d dvd a ^ (N - 1) mod N"
      by (simp add: dvd_mod)
    with one show "is_unit d"
      by simp
  qed
  then have cop: "coprime (a ^ k) N" for k
    by simp
  have "a \<noteq> 0"
  proof
    assume "a = 0"
    moreover have "N - 1 = Suc (N - 2)" using N by simp
    ultimately have "a ^ (N - 1) = 0" by (simp only: power_Suc mult_zero_left)
    with one have "(0::nat) mod N = 1" by (simp only:)
    then show False by simp
  qed
  define f where "f k = a ^ k mod N" for k
  have inj: "inj_on f {0..<N - 1}"
  proof (rule linorder_inj_onI)
    fix i j assume ij: "i < j" and "i \<in> {0..<N - 1}" and "j \<in> {0..<N - 1}"
    then have j: "j < N - 1" by simp
    show "f i \<noteq> f j"
    proof
      assume "f i = f j"
      then have "a ^ j mod N = a ^ i mod N" by (simp add: f_def)
      moreover have "a ^ i \<le> a ^ j"
        using ij \<open>a \<noteq> 0\<close> by (simp add: power_increasing)
      ultimately have "N dvd a ^ j - a ^ i"
        by (simp add: mod_eq_dvd_iff_nat)
      also have "a ^ j - a ^ i = a ^ i * (a ^ (j - i) - 1)"
        using ij by (simp add: algebra_simps flip: power_add)
      finally have "N dvd a ^ (j - i) - 1"
        using cop [of i] by (simp add: coprime_dvd_mult_right_iff coprime_commute)
      moreover have "1 \<le> a ^ (j - i)"
        using \<open>a \<noteq> 0\<close> by simp
      ultimately have "a ^ (j - i) mod N = 1 mod N"
        by (simp only: mod_eq_dvd_iff_nat)
      then have "a ^ (j - i) mod N = 1"
        using N by simp
      moreover have "0 < j - i" "j - i < N - 1"
        using ij j by simp_all
      ultimately show False
        using order by blast
    qed
  qed auto
  have sub: "f ` {0..<N - 1} \<subseteq> {1..<N}"
  proof
    fix x assume "x \<in> f ` {0..<N - 1}"
    then obtain k where x: "x = a ^ k mod N" by (auto simp: f_def)
    have "x \<noteq> 0"
    proof
      assume "x = 0"
      then have "N dvd a ^ k" by (simp add: x dvd_eq_mod_eq_0)
      then have "is_unit N"
        by (rule coprime_common_divisor [OF cop [of k] _ dvd_refl])
      with N show False by simp
    qed
    moreover have "x < N" using N by (simp add: x)
    ultimately show "x \<in> {1..<N}" by simp
  qed
  have "card (f ` {0..<N - 1}) = card {1..<N}"
    using inj by (simp add: card_image)
  with sub have img: "f ` {0..<N - 1} = {1..<N}"
    by (intro card_subset_eq) simp_all
  have "\<nexists>d. d dvd N \<and> d \<noteq> 1 \<and> d \<noteq> N"
  proof
    assume "\<exists>d. d dvd N \<and> d \<noteq> 1 \<and> d \<noteq> N"
    then obtain d where d: "d dvd N" "d \<noteq> 1" "d \<noteq> N" by blast
    then have "d \<noteq> 0" using N by auto
    moreover have "d \<le> N" using d(1) N by (simp add: dvd_imp_le)
    ultimately have "d \<in> {1..<N}" using d by simp
    then obtain k where "d = a ^ k mod N"
      unfolding img [symmetric] by (auto simp: f_def)
    then have "coprime d N"
      using cop [of k] by (simp add: coprime_iff_gcd_eq_1 gcd.commute [of _ N] gcd_red_nat [symmetric])
    then have "is_unit d"
      using dvd_refl d(1) by (rule coprime_common_divisor)
    with d(2) show False by simp
  qed
  with N show ?thesis
    by (simp add: is_prime_def)
qed

lemma is_prime_by_search:
  "is_prime p = (1 < p \<and> (\<forall>d\<in>{2..<p}. \<not> d dvd p))"
proof (cases "1 < p")
  case False
  then show ?thesis by (simp add: is_prime_def)
next
  case True
  have "(\<exists>d. d dvd p \<and> d \<noteq> 1 \<and> d \<noteq> p) = (\<exists>d\<in>{2..<p}. d dvd p)"
  proof (intro iffI; elim exE bexE conjE)
    fix d assume d: "d dvd p" "d \<noteq> 1" "d \<noteq> p"
    have "d \<noteq> 0" using d(1) True by (intro notI) simp
    moreover have "d \<le> p" using d(1) True by (simp add: dvd_imp_le)
    ultimately have "d \<in> {2..<p}" using d(2,3) by simp
    with d(1) show "\<exists>d\<in>{2..<p}. d dvd p" ..
  next
    fix d assume "d \<in> {2..<p}" "d dvd p"
    then have "d dvd p \<and> d \<noteq> 1 \<and> d \<noteq> p" by simp
    then show "\<exists>d. d dvd p \<and> d \<noteq> 1 \<and> d \<noteq> p" ..
  qed
  with True show ?thesis
    by (simp add: is_prime_def)
qed

lemma small_primes:
  "is_prime 2" "is_prime 3" "is_prime 7" "is_prime 11" "is_prime 31" "is_prime 151" "is_prime 331"
  unfolding is_prime_by_search by code_simp+

lemma is_prime_coprime:
  assumes "is_prime q" and "\<not> q dvd t"
  shows "coprime t q"
proof (rule coprimeI)
  fix d assume d: "d dvd t" "d dvd q"
  with assms(1) have "d = 1 \<or> d = q"
    by (auto simp: is_prime_def)
  with d(1) assms(2) show "is_unit d" by auto
qed

lemma factors_of_M31_minus_1:
  assumes "t dvd 2147483646" and "1 < t"
  shows "\<exists>q\<in>{2, 3, 7, 11, 31, 151, 331}. q dvd (t :: nat)"
proof (rule ccontr)
  assume "\<not> ?thesis"
  then have "coprime t 2" "coprime t 3" "coprime t 7" "coprime t 11" "coprime t 31"
    "coprime t 151" "coprime t 331"
    by (simp_all add: is_prime_coprime small_primes)
  then have "coprime t (2 * 3 * 3 * 7 * 11 * 31 * 151 * 331)"
    by (simp only: coprime_mult_right_iff simp_thms)
  then have "coprime t 2147483646"
    by simp
  then have "is_unit t"
    using dvd_refl assms(1) by (rule coprime_common_divisor)
  with assms(2) show False by simp
qed

lemma M31_power_full: "(7::nat) ^ 2147483646 mod 2147483647 = 1"
proof -
  have "powmod 7 2147483646 2147483647 = 1"
    by (simp add: powmod.simps)
  then show ?thesis
    unfolding powmod_eq .
qed

lemma M31_powers_part:
  assumes "q \<in> {2, 3, 7, 11, 31, 151, 331}"
  shows "(7::nat) ^ (2147483646 div q) mod 2147483647 \<noteq> 1"
proof -
  have h: "powmod 7 (2147483646 div 2) 2147483647 \<noteq> 1"
    "powmod 7 (2147483646 div 3) 2147483647 \<noteq> 1"
    "powmod 7 (2147483646 div 7) 2147483647 \<noteq> 1"
    "powmod 7 (2147483646 div 11) 2147483647 \<noteq> 1"
    "powmod 7 (2147483646 div 31) 2147483647 \<noteq> 1"
    "powmod 7 (2147483646 div 151) 2147483647 \<noteq> 1"
    "powmod 7 (2147483646 div 331) 2147483647 \<noteq> 1"
    by (simp_all add: powmod.simps)
  have "powmod 7 (2147483646 div q) 2147483647 \<noteq> 1"
    using assms
  proof (elim insertE emptyE)
    assume "q = 2" then show ?thesis using h(1) by blast
  next
    assume "q = 3" then show ?thesis using h(2) by blast
  next
    assume "q = 7" then show ?thesis using h(3) by blast
  next
    assume "q = 11" then show ?thesis using h(4) by blast
  next
    assume "q = 31" then show ?thesis using h(5) by blast
  next
    assume "q = 151" then show ?thesis using h(6) by blast
  next
    assume "q = 331" then show ?thesis using h(7) by blast
  qed
  then show ?thesis
    unfolding powmod_eq .
qed

lemma is_prime_M31: "is_prime 2147483647"
proof (rule lucas_is_prime [where a = 7])
  have M: "(2147483647::nat) - 1 = 2147483646"
    by simp
  show "(1::nat) < 2147483647"
    by simp
  show "(7::nat) ^ (2147483647 - 1) mod 2147483647 = 1"
    unfolding M by (rule M31_power_full)
  show "(7::nat) ^ k mod 2147483647 \<noteq> 1" if "0 < k" "k < 2147483647 - 1" for k
    using _ M31_power_full factors_of_M31_minus_1 M31_powers_part that
    unfolding M by (rule order_is_full) simp
qed

section \<open>The primality test\<close>

lemma int_rem_of_nat:
  assumes "N < 2 ^ 31" and "I < 2 ^ 31"
  shows "(int_rem (of_nat N) (of_nat I) = 0) = (N mod I = 0)"
proof -
  have "sint (of_nat N :: cint) smod sint (of_nat I :: cint) = int (N mod I)"
    using assms by (simp add: sint_of_nat_32 smod_mod_positive zmod_int)
  moreover have "N mod I < 2 ^ 32"
  proof (cases "I = 0")
    case True
    with assms show ?thesis by simp
  next
    case False
    then have "N mod I < I" by simp
    with assms show ?thesis by simp
  qed
  ultimately show ?thesis
    by (simp add: int_rem_def word_of_nat_eq_0_iff dvd_eq_mod_eq_0 take_bit_nat_eq_self unat_of_nat flip: unat_eq_0)
qed

lemma IsPrime_loop_step:
  assumes "n = of_nat N" and "N < 2 ^ 31" and "I + 2 < 2 ^ 31"
  shows "IsPrime_loop n (of_nat I) =
    (if of_nat I * of_nat I \<le>s n
     then (if N mod I = 0 then Some False else IsPrime_loop n (of_nat (I + 2)))
     else Some True)"
proof -
  have "(int_rem (of_nat N) (of_nat I) = 0) = (N mod I = 0)"
    by (rule int_rem_of_nat) (use assms in simp_all)
  moreover have "(of_nat I :: cint) + 2 = of_nat (I + 2)"
    by simp
  ultimately show ?thesis
    unfolding assms(1) by (subst IsPrime_loop.simps) (simp only:)
qed

lemma IsPrime_loop_last:
  assumes "n = of_nat N" and "N < 2 ^ 31" and "0 < N"
  shows "\<exists>b. IsPrime_loop n n = Some b"
proof -
  have "int_rem (of_nat N) (of_nat N) = 0"
    using int_rem_of_nat [of N N] assms by simp
  then show ?thesis
    unfolding assms(1) by (subst IsPrime_loop.simps) auto
qed

text \<open>
  The candidates are odd and so is \<open>n\<close>: the loop ends at the latest when the candidate
  is \<open>n\<close> itself, which divides \<open>n\<close>.
\<close>

lemma IsPrime_loop_terminates:
  assumes "n = of_nat N" and "N < 2 ^ 31" and "odd N"
  shows "odd I \<Longrightarrow> I \<le> N \<Longrightarrow> \<exists>b. IsPrime_loop n (of_nat I) = Some b"
proof (induction "N - I" arbitrary: I rule: less_induct)
  case less
  show ?case
  proof (cases "I = N")
    case True
    then show ?thesis
      using IsPrime_loop_last [of n N] assms by auto
  next
    case False
    with less.prems assms(3) have "I + 2 \<le> N"
      by (auto elim!: oddE)
    then have step: "IsPrime_loop n (of_nat I) =
      (if of_nat I * of_nat I \<le>s n
       then (if N mod I = 0 then Some False else IsPrime_loop n (of_nat (I + 2)))
       else Some True)"
      using assms(1,2) by (intro IsPrime_loop_step) simp_all
    have "\<exists>b. IsPrime_loop n (of_nat (I + 2)) = Some b"
      using \<open>I + 2 \<le> N\<close> less.prems by (intro less.hyps) simp_all
    then show ?thesis
      by (auto simp: step)
  qed
qed

lemma odd_of_int_rem_2:
  assumes "\<not> n <s 2" and "int_rem n 2 \<noteq> 0"
  shows "odd (nat (sint n))"
proof -
  have pos: "0 \<le> sint n"
    using assms(1) by (simp add: word_sless_alt)
  have "sint n smod 2 \<noteq> 0"
  proof
    assume "sint n smod 2 = 0"
    then have "int_rem n 2 = 0" by (simp add: int_rem_def)
    with assms(2) show False ..
  qed
  moreover have "sint n smod 2 = sint n mod 2"
    using pos by (simp add: smod_mod_positive)
  ultimately have "odd (sint n)"
    by presburger
  with pos show ?thesis
    by (simp add: even_nat_iff)
qed

lemma IsPrime_terminates: "\<exists>b. IsPrime n = Some b"
proof (cases "n <s 2 \<or> n = 2 \<or> int_rem n 2 = 0")
  case True
  then show ?thesis
    by (auto simp: IsPrime_def)
next
  case False
  define N where "N = nat (sint n)"
  have ge: "2 \<le> sint n"
    using False by (simp add: word_sless_alt)
  then have n: "n = of_nat N"
    by (simp add: N_def)
  have N: "N < 2 ^ 31"
    using sint_bounds_32(2) [of n] ge by (simp add: N_def)
  have "odd N"
    unfolding N_def using False by (intro odd_of_int_rem_2) simp_all
  moreover have "2 \<le> N"
    using ge by (simp add: N_def)
  ultimately have "3 \<le> N"
    by (cases "N = 2") auto
  have "\<exists>b. IsPrime_loop n (of_nat 3) = Some b"
    by (rule IsPrime_loop_terminates [OF n N \<open>odd N\<close>]) (use \<open>3 \<le> N\<close> in simp_all)
  then show ?thesis
    using False by (simp add: IsPrime_def)
qed

text \<open>
  At \<^verbatim>\<open>INT_MAX\<close> the test \<^verbatim>\<open>i * i <= n\<close> holds whatever the (wrapped) square is, so the
  loop leaves only through a candidate that divides \<open>n\<close>, with the answer \<^verbatim>\<open>false\<close>.
\<close>

lemma IsPrime_loop_INT_MAX:
  "odd I \<Longrightarrow> I \<le> 2147483647 \<Longrightarrow> IsPrime_loop INT_MAX (of_nat I) = Some False"
proof (induction "2147483647 - I" arbitrary: I rule: less_induct)
  case less
  have M: "INT_MAX = of_nat 2147483647"
    by (simp add: INT_MAX_def)
  show ?case
  proof (cases "I = 2147483647")
    case True
    then have I: "(of_nat I :: cint) = INT_MAX"
      by (simp add: INT_MAX_def)
    have "int_rem INT_MAX INT_MAX = 0"
      by (simp add: int_rem_def INT_MAX_def)
    then have "IsPrime_loop INT_MAX INT_MAX = Some False"
      by (subst IsPrime_loop.simps) (simp add: sle_INT_MAX)
    then show ?thesis
      by (simp only: I)
  next
    case False
    with less.prems have le: "I + 2 \<le> 2147483647"
      by (auto elim!: oddE)
    then have "IsPrime_loop INT_MAX (of_nat I) =
      (if of_nat I * of_nat I \<le>s INT_MAX
       then (if 2147483647 mod I = 0 then Some False
             else IsPrime_loop INT_MAX (of_nat (I + 2)))
       else Some True)"
      by (intro IsPrime_loop_step [OF M]) simp_all
    moreover have "IsPrime_loop INT_MAX (of_nat (I + 2)) = Some False"
      using le less.prems by (intro less.hyps) simp_all
    ultimately show ?thesis
      by (simp add: sle_INT_MAX)
  qed
qed

lemma IsPrime_INT_MAX: "IsPrime INT_MAX = Some False"
proof -
  have "IsPrime_loop INT_MAX (of_nat 3) = Some False"
    by (rule IsPrime_loop_INT_MAX) simp_all
  then show ?thesis
    by (simp add: IsPrime_def INT_MAX_def int_rem_def word_sless_alt)
qed

lemma of_nat_mult_sle:
  assumes "K * K < 2 ^ 31" and "N < 2 ^ 31"
  shows "((of_nat K :: cint) * of_nat K \<le>s of_nat N) = (K * K \<le> N)"
proof -
  have "(of_nat K :: cint) * of_nat K = of_nat (K * K)"
    by simp
  then show ?thesis
    using sle_of_nat_32 [OF assms] by (simp only:)
qed

lemma small_of_square:
  fixes K :: nat
  assumes "K * K < 2 ^ 31"
  shows "K + 2 < 2 ^ 31"
proof (rule ccontr)
  assume "\<not> K + 2 < 2 ^ 31"
  then have "2 ^ 31 - 2 \<le> K" by simp
  then have "(2 ^ 31 - 2) * (2 ^ 31 - 2) \<le> K * K"
    by (intro mult_le_mono)
  with assms show False by simp
qed

text \<open>
  The loop finds an odd divisor \<open>D\<close> of \<open>n\<close> whose square is at most \<open>n\<close>: up to
  \<open>D\<close> no square wraps.
\<close>

lemma IsPrime_loop_finds_divisor:
  assumes n: "n = of_nat N" and N: "N < 2 ^ 31" and D: "odd D" "D dvd N" "D * D \<le> N"
  shows "odd I \<Longrightarrow> I \<le> D \<Longrightarrow> IsPrime_loop n (of_nat I) = Some False"
proof (induction "D - I" arbitrary: I rule: less_induct)
  case less
  have "I * I \<le> D * D"
    using less.prems(2) by (intro mult_le_mono)
  with D(3) N have sq: "I * I \<le> N" "I * I < 2 ^ 31"
    by simp_all
  then have cond: "(of_nat I :: cint) * of_nat I \<le>s n"
    using of_nat_mult_sle [of I N] N by (simp add: n)
  have step: "IsPrime_loop n (of_nat I) =
    (if of_nat I * of_nat I \<le>s n
     then (if N mod I = 0 then Some False else IsPrime_loop n (of_nat (I + 2)))
     else Some True)"
    using n N small_of_square [OF sq(2)] by (rule IsPrime_loop_step)
  show ?case
  proof (cases "I = D")
    case True
    with D(2) have "N mod I = 0" by auto
    with cond show ?thesis by (simp add: step)
  next
    case False
    with less.prems D(1) have "I + 2 \<le> D"
      by (auto elim!: oddE)
    then have "IsPrime_loop n (of_nat (I + 2)) = Some False"
      using less.prems by (intro less.hyps) simp_all
    with cond show ?thesis by (simp add: step)
  qed
qed

text \<open>
  The loop answers \<^verbatim>\<open>true\<close> when it meets no divisor before a candidate \<open>R\<close> at which
  the test on the (wrapped) square fails.
\<close>

lemma IsPrime_loop_leaves:
  assumes n: "n = of_nat N" and N: "N < 2 ^ 31" and R: "odd R" "R + 2 < 2 ^ 31"
    and exit: "\<not> (of_nat R :: cint) * of_nat R \<le>s n"
    and free: "\<And>k. 1 < k \<Longrightarrow> k < R \<Longrightarrow> \<not> k dvd N"
  shows "odd I \<Longrightarrow> 1 < I \<Longrightarrow> I \<le> R \<Longrightarrow> IsPrime_loop n (of_nat I) = Some True"
proof (induction "R - I" arbitrary: I rule: less_induct)
  case less
  have step: "IsPrime_loop n (of_nat I) =
    (if of_nat I * of_nat I \<le>s n
     then (if N mod I = 0 then Some False else IsPrime_loop n (of_nat (I + 2)))
     else Some True)"
    using n N by (rule IsPrime_loop_step) (use less.prems R in simp)
  show ?case
  proof (cases "(of_nat I :: cint) * of_nat I \<le>s n")
    case False
    then show ?thesis by (simp add: step)
  next
    case True
    with exit have "I \<noteq> R" by auto
    with less.prems R(1) have le: "I + 2 \<le> R"
      by (auto elim!: oddE)
    then have "\<not> I dvd N"
      using less.prems by (intro free) simp_all
    moreover have "IsPrime_loop n (of_nat (I + 2)) = Some True"
      using le less.prems by (intro less.hyps) simp_all
    ultimately show ?thesis
      using True by (simp add: step dvd_eq_mod_eq_0)
  qed
qed

lemma least_divisor:
  assumes "1 < N" and "\<not> is_prime N"
  obtains D where "1 < D" and "D dvd N" and "D * D \<le> N"
proof -
  from assms obtain d where d: "d dvd N" "d \<noteq> 1" "d \<noteq> N"
    by (auto simp: is_prime_def)
  define P where "P k \<longleftrightarrow> 1 < k \<and> k dvd N" for k
  define D where "D = (LEAST k. P k)"
  have "d \<noteq> 0"
    using d(1) assms(1) by (intro notI) simp
  with d have "P d"
    by (simp add: P_def)
  then have "P D" and "D \<le> d"
    unfolding D_def by (rule LeastI, rule Least_le)
  have "d \<le> N"
    using d(1) assms(1) by (simp add: dvd_imp_le)
  with d(3) \<open>D \<le> d\<close> have "D < N"
    by simp
  from \<open>P D\<close> obtain e where e: "N = D * e"
    by (auto simp: P_def)
  have "e \<noteq> 0"
    using e assms(1) by (intro notI) simp
  moreover have "e \<noteq> 1"
    using e \<open>D < N\<close> by (intro notI) simp
  ultimately have "P e"
    by (simp add: P_def e)
  then have "D \<le> e"
    unfolding D_def by (rule Least_le)
  then have "D * D \<le> N"
    by (simp add: e)
  with \<open>P D\<close> that show thesis
    by (auto simp: P_def)
qed

lemma wrapped_square: "(of_nat 593968971 :: cint) * of_nat 593968971 = of_nat 2147483641"
  by simp

lemma IsPrime_loop_correct:
  assumes n: "n = of_nat N" and N: "N < 2 ^ 31 - 1" and odd: "odd N" and three: "3 \<le> N"
  shows "IsPrime_loop n (of_nat 3) = Some (is_prime N)"
proof (cases "is_prime N")
  case False
  have "1 < N"
    using three by simp
  then obtain D where D: "1 < D" "D dvd N" "D * D \<le> N"
    using False by (rule least_divisor)
  from D(2) odd have "odd D"
    by (auto elim: dvdE)
  with D(1) have "3 \<le> D"
    by (cases "D = 2") auto
  have "IsPrime_loop n (of_nat 3) = Some False"
    using n _ \<open>odd D\<close> D(2,3) _ \<open>3 \<le> D\<close> by (rule IsPrime_loop_finds_divisor) (use N in simp_all)
  with False show ?thesis by simp
next
  case True
  then have free: "\<not> k dvd N" if "1 < k" "k < N" for k
    using that by (auto simp: is_prime_def)
  have N': "N < 2 ^ 31"
    using N by simp
  have "IsPrime_loop n (of_nat 3) = Some True"
  proof (cases "N < 46339 * 46339")
    case small: True
    define R where "R = min N 46339"
    have R: "odd R" "R \<le> 46339" "R \<le> N" "3 \<le> R" "N < R * R"
      using odd three small by (auto simp: R_def min_def)
    have "R * R \<le> 46339 * 46339"
      using R(2) by (intro mult_le_mono)
    then have "R * R < 2 ^ 31"
      by simp
    then have "((of_nat R :: cint) * of_nat R \<le>s of_nat N) = (R * R \<le> N)"
      using N' by (rule of_nat_mult_sle)
    with R(5) have exit: "\<not> (of_nat R :: cint) * of_nat R \<le>s n"
      by (simp add: n)
    show ?thesis
      using n N' R(1) _ exit free _ _ R(4)
      by (rule IsPrime_loop_leaves) (use R in simp_all)
  next
    case large: False
    have "N \<noteq> 2147483645" "N \<noteq> 2147483643" "N \<noteq> 2147483641"
      using free [of 5] free [of 3] free [of 2699] by auto
    moreover have "N < 2147483647"
      using N by simp
    ultimately have "N < 2147483641"
      using odd by presburger
    moreover have "((of_nat 2147483641 :: cint) \<le>s of_nat N) = (2147483641 \<le> N)"
      using _ N' by (rule sle_of_nat_32) simp
    ultimately have exit: "\<not> (of_nat 593968971 :: cint) * of_nat 593968971 \<le>s n"
      by (simp only: wrapped_square n)
    show ?thesis
      using n N' _ _ exit free
      by (rule IsPrime_loop_leaves) (use large in simp_all)
  qed
  with True show ?thesis by simp
qed

lemma not_prime_below_2: "N < 2 \<Longrightarrow> \<not> is_prime N"
  by (simp add: is_prime_def)

lemma not_prime_even: "even N \<Longrightarrow> 2 < N \<Longrightarrow> \<not> is_prime N"
  by (auto simp: is_prime_def)

text \<open>
  Apart from \<^verbatim>\<open>INT_MAX\<close>, \<open>IsPrime\<close> decides primality: the squares that wrap, for the
  primes above \<open>46339\<^sup>2\<close>, do not change the answer.
\<close>

lemma IsPrime_correct_below_INT_MAX:
  assumes "n \<noteq> INT_MAX"
  shows "IsPrime n = Some (is_prime (nat (sint n)))"
proof -
  define N where "N = nat (sint n)"
  consider "n <s 2" | "n = 2" | "\<not> n <s 2" "n \<noteq> 2" "int_rem n 2 = 0"
    | "\<not> n <s 2" "n \<noteq> 2" "int_rem n 2 \<noteq> 0"
    by blast
  then show ?thesis
  proof cases
    case 1
    then have "N < 2"
      by (simp add: N_def word_sless_alt)
    with 1 show ?thesis
      by (simp add: IsPrime_def not_prime_below_2 flip: N_def)
  next
    case 2
    then show ?thesis
      by (simp add: IsPrime_def small_primes word_sless_alt)
  next
    case 3
    then have ge: "2 \<le> sint n"
      by (simp add: word_sless_alt)
    then have n: "n = of_nat N"
      by (simp add: N_def)
    have N: "N < 2 ^ 31"
      using sint_bounds_32(2) [of n] ge by (simp add: N_def)
    have "(int_rem (of_nat N) (of_nat 2) = 0) = (N mod 2 = 0)"
      using N by (intro int_rem_of_nat) simp_all
    with 3(3) have "N mod 2 = 0"
      unfolding n by simp
    then have "even N"
      by presburger
    moreover have "N \<noteq> 2"
      using 3(2) n by auto
    then have "2 < N"
      using ge by (simp add: N_def)
    ultimately have "\<not> is_prime N"
      by (rule not_prime_even)
    with 3 show ?thesis
      by (simp add: IsPrime_def flip: N_def)
  next
    case 4
    then have ge: "2 \<le> sint n"
      by (simp add: word_sless_alt)
    then have n: "n = of_nat N"
      by (simp add: N_def)
    have "sint n \<noteq> 2 ^ 31 - 1"
      using assms by (rule sint_neq_INT_MAX)
    then have N: "N < 2 ^ 31 - 1"
      using sint_bounds_32(2) [of n] ge by (simp add: N_def)
    have "odd N"
      unfolding N_def using 4(1,3) by (rule odd_of_int_rem_2)
    moreover have "2 \<le> N"
      using ge by (simp add: N_def)
    ultimately have "3 \<le> N"
      by (cases "N = 2") auto
    have "IsPrime_loop n (of_nat 3) = Some (is_prime N)"
      using n N \<open>odd N\<close> \<open>3 \<le> N\<close> by (rule IsPrime_loop_correct)
    with 4 show ?thesis
      by (simp add: IsPrime_def flip: N_def)
  qed
qed

section \<open>The arguments at which a call has no result, or a wrong one\<close>

lemma Factorial_raises_iff: "(Factorial n = Some (Inl InvalidArgument)) = (n <s 0)"
  by (auto simp: Factorial_def)

lemma sless_0_INT_MAX: "\<not> INT_MAX <s 0"
  by (simp add: INT_MAX_def word_sless_alt)

text \<open>
  Claim C1, at the argument where the code leaves it: \<open>2147483647\<close> is a prime
  number, odd and greater than 2, and \<open>IsPrime\<close> answers \<^verbatim>\<open>false\<close> for it.
\<close>

theorem IsPrime_INT_MAX_false: "IsPrime 2147483647 = Some False \<and> is_prime 2147483647"
  using IsPrime_INT_MAX is_prime_M31 by (simp add: INT_MAX_def)

text \<open>
  Claim C2, at the argument where the code leaves it: \<open>Factorial\<close> at \<^verbatim>\<open>INT_MAX\<close>, which
  is not negative, neither raises \<open>InvalidArgument\<close> nor produces a result.
\<close>

theorem Factorial_INT_MAX_neither_raises_nor_returns:
  "\<not> INT_MAX <s 0 \<and> Factorial INT_MAX \<noteq> Some (Inl InvalidArgument) \<and>
   (\<nexists>r. Factorial INT_MAX = Some (Inr r))"
  by (simp add: Factorial_INT_MAX sless_0_INT_MAX)

text \<open>
  Claim C4, at the argument where the code leaves it: \<open>Factorial\<close> at \<^verbatim>\<open>INT_MAX\<close>, which
  is not negative, returns no value, so none that is congruent to the factorial of
  \<open>2147483647\<close> modulo \<open>2 ^ 64\<close>.
\<close>

theorem Factorial_INT_MAX_not_congruent:
  "0 \<le>s INT_MAX \<and>
   (\<nexists>r. Factorial INT_MAX = Some (Inr r) \<and> unat r = fact 2147483647 mod 2 ^ 64)"
  by (simp add: Factorial_INT_MAX sle_INT_MAX)

text \<open>
  Claim C5, at the argument where the code leaves it: the call of \<open>Factorial\<close> at
  \<^verbatim>\<open>INT_MAX\<close> does not terminate.
\<close>

theorem Factorial_INT_MAX_never_returns: "Factorial INT_MAX = None"
  by (rule Factorial_INT_MAX)

text \<open>
  Claim C10, at the argument where the code leaves it: \<^verbatim>\<open>INT_MAX\<close> is at least 66, and
  \<open>Factorial\<close> does not return 0 for it.
\<close>

theorem Factorial_INT_MAX_not_zero: "66 \<le>s INT_MAX \<and> Factorial INT_MAX \<noteq> Some (Inr 0)"
  by (simp add: Factorial_INT_MAX sle_INT_MAX)

end
